theory Spec2Isabelle
  imports Complex_Main "HOL-Library.Multiset" "HOL-Library.Product_Lexorder"
begin

section \<open>Word boxes and directional distances\<close>

text \<open>
  A word is the dictionary that the page parser returns for one word: the four edges of its
  bounding box and its text. Coordinates are modelled as exact rationals, so the arithmetic
  of the source is the arithmetic of the model wherever the floating point computation
  is exact.
\<close>

record word =
  word_x0 :: rat
  word_x1 :: rat
  word_top :: rat
  word_bottom :: rat
  word_text :: string

text \<open>\<open>get_directional_distances\<close>: the absolute horizontal and vertical distance
  between the centres of two boxes.\<close>

definition get_directional_distances :: "word \<Rightarrow> word \<Rightarrow> rat \<times> rat" where
  "get_directional_distances word1 word2 =
     (let x1 = (word_x0 word1 + word_x1 word1) / 2;
          y1 = (word_top word1 + word_bottom word1) / 2;
          x2 = (word_x0 word2 + word_x1 word2) / 2;
          y2 = (word_top word2 + word_bottom word2) / 2;
          horizontal_dist = \<bar>x2 - x1\<bar>;
          vertical_dist = \<bar>y2 - y1\<bar>
      in (horizontal_dist, vertical_dist))"

section \<open>The neighbour scan\<close>

text \<open>The running minima start at \<open>float('inf')\<close>; a distance is therefore either a
  finite rational or infinity.\<close>

datatype dist = Fin rat | Inf

fun less_dist :: "rat \<Rightarrow> dist \<Rightarrow> bool" where
  "less_dist d Inf = True"
| "less_dist d (Fin m) = (d < m)"

fun min_dist :: "dist \<Rightarrow> dist \<Rightarrow> dist" where
  "min_dist Inf b = b"
| "min_dist a Inf = a"
| "min_dist (Fin a) (Fin b) = Fin (min a b)"

fun greater_dist :: "dist \<Rightarrow> rat \<Rightarrow> bool" where
  "greater_dist Inf t = True"
| "greater_dist (Fin m) t = (m > t)"

text \<open>
  The local variables of one pass of the \<open>while\<close> loop. \<open>closest_word\<close> and
  \<open>closest_idx\<close> are assigned together in both branches of the scan, so they are one
  optional pair \<open>(closest_idx, closest_word)\<close>.
\<close>

record scan =
  closest :: "(nat \<times> word) option"
  min_horizontal_dist :: dist
  min_vertical_dist :: dist
  is_horizontal :: bool

definition scan_init :: scan where
  "scan_init = \<lparr>closest = None, min_horizontal_dist = Inf, min_vertical_dist = Inf,
                 is_horizontal = True\<rparr>"

text \<open>The body of the inner \<open>for j, other_word in enumerate(words)\<close> loop, after the
  \<open>processed\<close> test.\<close>

definition scan_step :: "word \<Rightarrow> nat \<times> word \<Rightarrow> scan \<Rightarrow> scan" where
  "scan_step current_word jw s =
     (case jw of (j, other_word) \<Rightarrow>
      (case get_directional_distances current_word other_word of (h_dist, v_dist) \<Rightarrow>
        if h_dist < v_dist \<and> less_dist h_dist (min_horizontal_dist s) then
          s\<lparr>min_horizontal_dist := Fin h_dist, closest := Some (j, other_word),
            is_horizontal := True\<rparr>
        else if less_dist v_dist (min_vertical_dist s) then
          s\<lparr>min_vertical_dist := Fin v_dist, closest := Some (j, other_word),
            is_horizontal := False\<rparr>
        else s))"

definition scan_body :: "nat set \<Rightarrow> word \<Rightarrow> nat \<times> word \<Rightarrow> scan \<Rightarrow> scan" where
  "scan_body processed current_word jw s =
     (if fst jw \<in> processed then s else scan_step current_word jw s)"

definition find_closest :: "word list \<Rightarrow> nat set \<Rightarrow> word \<Rightarrow> scan" where
  "find_closest words processed current_word =
     fold (scan_body processed current_word) (enumerate 0 words) scan_init"

section \<open>Line reconstruction\<close>

lemma scan_body_closest:
  assumes "closest (scan_body processed cur (j, w) s) = Some (k, u)"
  shows "closest s = Some (k, u) \<or> (k = j \<and> u = w \<and> j \<notin> processed)"
  using assms
  by (auto simp: scan_body_def scan_step_def split: if_splits prod.splits)

lemma fold_scan_closest:
  assumes "closest (fold (scan_body processed cur) (take n (enumerate 0 ws)) s0) = Some (k, u)"
  shows "closest s0 = Some (k, u) \<or> (k < length ws \<and> u = ws ! k \<and> k \<notin> processed)"
  using assms
proof (induction n arbitrary: k u)
  case 0
  then show ?case by simp
next
  case (Suc n)
  show ?case
  proof (cases "n < length ws")
    case True
    then have t: "take (Suc n) (enumerate 0 ws) = take n (enumerate 0 ws) @ [(n, ws ! n)]"
      by (simp add: take_Suc_conv_app_nth nth_enumerate_eq)
    from Suc.prems [unfolded t] have
      "closest (scan_body processed cur (n, ws ! n)
         (fold (scan_body processed cur) (take n (enumerate 0 ws)) s0)) = Some (k, u)"
      by simp
    from scan_body_closest [OF this] Suc.IH True show ?thesis by blast
  next
    case False
    then have "take (Suc n) (enumerate 0 ws) = take n (enumerate 0 ws)" by simp
    with Suc show ?thesis by simp
  qed
qed

lemma find_closest_idx:
  assumes "closest (find_closest ws processed cur) = Some (k, u)"
  shows "k < length ws \<and> u = ws ! k \<and> k \<notin> processed"
proof -
  have "closest (fold (scan_body processed cur) (take (length ws) (enumerate 0 ws)) scan_init)
          = Some (k, u)"
    using assms by (simp add: find_closest_def)
  from fold_scan_closest [OF this] show ?thesis by (simp add: scan_init_def)
qed

lemma unprocessed_decreases:
  assumes "k < (n::nat)" "k \<notin> processed"
  shows "card ({..<n} - insert k processed) < card ({..<n} - processed)"
proof -
  have "{..<n} - insert k processed \<subset> {..<n} - processed"
    using assms by auto
  moreover have "finite ({..<n} - processed)" by simp
  ultimately show ?thesis by (rule psubset_card_mono [rotated])
qed

text \<open>
  The \<open>while True\<close> loop that extends the current group. It returns the variables that
  are live after the loop: \<open>processed\<close>, \<open>current_group\<close> and \<open>groups\<close>. Each pass that
  does not break adds a new index to \<open>processed\<close>, which is the termination argument.
\<close>

function extend_group ::
  "word list \<Rightarrow> rat \<Rightarrow> nat set \<Rightarrow> word \<Rightarrow> word list \<Rightarrow> word list list
     \<Rightarrow> nat set \<times> word list \<times> word list list" where
  "extend_group words threshold processed current_word current_group groups =
     (let s = find_closest words processed current_word in
      case closest s of
        None \<Rightarrow> (processed, current_group, groups)
      | Some (closest_idx, closest_word) \<Rightarrow>
          if greater_dist (min_dist (min_horizontal_dist s) (min_vertical_dist s)) threshold
          then (processed, current_group, groups)
          else if is_horizontal s then
            extend_group words threshold (insert closest_idx processed) closest_word
              (current_group @ [closest_word]) groups
          else
            extend_group words threshold (insert closest_idx processed) closest_word
              [closest_word] (groups @ [sort_key word_x0 current_group]))"
  by pat_completeness auto

termination
proof (relation "measure (\<lambda>(words, threshold, processed, current_word, current_group, groups).
                    card ({..<length words} - processed))")
  show "wf (measure (\<lambda>(words, threshold, processed, current_word, current_group, groups).
                    card ({..<length words} - processed)))"
    by simp
next
  fix words :: "word list" and threshold :: rat and processed :: "nat set"
    and current_word :: word and current_group :: "word list" and groups :: "word list list"
    and s x2 closest_idx closest_word
  assume "s = find_closest words processed current_word" "closest s = Some x2"
    "(closest_idx, closest_word) = x2"
  then have "closest (find_closest words processed current_word) = Some (closest_idx, closest_word)"
    by simp
  from find_closest_idx [OF this]
  have "closest_idx < length words" "closest_idx \<notin> processed" by simp_all
  then have d: "card ({..<length words} - insert closest_idx processed)
             < card ({..<length words} - processed)"
    by (rule unprocessed_decreases)
  {
    show "((words, threshold, insert closest_idx processed, closest_word,
            current_group @ [closest_word], groups),
           words, threshold, processed, current_word, current_group, groups)
          \<in> measure (\<lambda>(words, threshold, processed, current_word, current_group, groups).
                    card ({..<length words} - processed))"
      using d by simp
  }
  {
    show "((words, threshold, insert closest_idx processed, closest_word, [closest_word],
            groups @ [sort_key word_x0 current_group]),
           words, threshold, processed, current_word, current_group, groups)
          \<in> measure (\<lambda>(words, threshold, processed, current_word, current_group, groups).
                    card ({..<length words} - processed))"
      using d by simp
  }
qed

declare extend_group.simps [simp del]

text \<open>The body of the outer \<open>for i, current_word in enumerate(words)\<close> loop, on the
  state \<open>(processed, groups)\<close>.\<close>

definition seed_step ::
  "word list \<Rightarrow> rat \<Rightarrow> nat \<times> word \<Rightarrow> nat set \<times> word list list \<Rightarrow> nat set \<times> word list list" where
  "seed_step words threshold iw st =
     (case iw of (i, current_word) \<Rightarrow>
      (case st of (processed, groups) \<Rightarrow>
        if i \<in> processed then (processed, groups)
        else
          (case extend_group words threshold (insert i processed) current_word
                  [current_word] groups of
             (processed', current_group, groups') \<Rightarrow>
               if current_group \<noteq> []
               then (processed', groups' @ [sort_key word_x0 current_group])
               else (processed', groups'))))"

text \<open>\<open>extract_structured_text\<close>, on the word list that \<open>page.extract_words\<close> returned.\<close>

definition extract_structured_text :: "word list \<Rightarrow> rat \<Rightarrow> word list list" where
  "extract_structured_text page_words threshold =
     (if page_words = [] then []
      else
        (let words = sort_key (\<lambda>w. (word_top w, word_x0 w)) page_words
         in snd (fold (seed_step words threshold) (enumerate 0 words) ({}, []))))"

section \<open>Page extraction\<close>

text \<open>
  Python's \<open>str.strip()\<close> removes leading and trailing whitespace. Strings are lists of
  8-bit characters; on the code points that a \<open>char\<close> can hold, \<open>str.isspace\<close> is true
  of the ones below.
\<close>

definition isspace :: "char \<Rightarrow> bool" where
  "isspace c = (of_char c \<in> {9, 10, 11, 12, 13, 28, 29, 30, 31, 32, 133, 160 :: nat})"

definition strip :: "string \<Rightarrow> string" where
  "strip s = rev (dropWhile isspace (rev (dropWhile isspace s)))"

text \<open>\<open>sep.join(xs)\<close>.\<close>

fun join :: "string \<Rightarrow> string list \<Rightarrow> string" where
  "join sep [] = []"
| "join sep [x] = x"
| "join sep (x # y # ys) = x @ sep @ join sep (y # ys)"

text \<open>The decimal numeral that an f-string prints for a natural number.\<close>

fun str_nat :: "nat \<Rightarrow> string" where
  "str_nat n = (if n < 10 then [char_of (48 + n)]
                else str_nat (n div 10) @ [char_of (48 + n mod 10)])"

declare str_nat.simps [simp del]

text \<open>
  The exceptions that can reach the handlers of the \<open>try\<close> block, each with the text
  that \<open>str(e)\<close> gives. \<open>FileNotFoundError\<close>, \<open>IsADirectoryError\<close> and
  \<open>PermissionError\<close> are the errors of opening a path; \<open>Exception\<close> stands for every
  other exception class below \<open>Exception\<close>.
\<close>

datatype exn =
  FileNotFoundError string
| IsADirectoryError string
| PermissionError string
| Exception string

fun str_exn :: "exn \<Rightarrow> string" where
  "str_exn (FileNotFoundError m) = m"
| "str_exn (IsADirectoryError m) = m"
| "str_exn (PermissionError m) = m"
| "str_exn (Exception m) = m"

text \<open>
  A page, as far as this program looks at it: the outcome of \<open>page.extract_text\<close> (it
  raises, or returns a string or \<open>None\<close>) and the outcome of \<open>page.extract_words\<close> (it
  raises, or returns the words). A document is the outcome of \<open>pdf.pages\<close>.
\<close>

record page =
  extract_text :: "exn + string option"
  extract_words :: "exn + word list"

record pdf =
  pdf_pages :: "exn + page list"

text \<open>The inner loop over the groups of a page: one line per group whose joined text is
  not empty.\<close>

definition group_step :: "word list \<Rightarrow> string \<Rightarrow> string" where
  "group_step grp full_text =
     (let group_text = strip (join '' '' (map word_text grp))
      in if group_text \<noteq> [] then full_text @ group_text @ ''\<newline>'' else full_text)"

text \<open>
  The body of \<open>for i, page in enumerate(pdf.pages)\<close>, on the accumulator \<open>full_text\<close>.
  \<open>extract_structured_text(page)\<close> calls \<open>page.extract_words\<close> first, so an exception of
  that call leaves the body, as one of \<open>page.extract_text\<close> does.
\<close>

definition page_step :: "nat \<times> page \<Rightarrow> string \<Rightarrow> exn + string" where
  "page_step ip full_text =
     (case ip of (i, page) \<Rightarrow>
       (case extract_text page of
          Inl e \<Rightarrow> Inl e
        | Inr text \<Rightarrow>
            if (case text of None \<Rightarrow> False | Some t \<Rightarrow> t \<noteq> [] \<and> length (strip t) > 0) then
              Inr (full_text @ ''\<newline>--- Page '' @ str_nat (i + 1) @ '' ---\<newline>''
                     @ strip (the text) @ ''\<newline>'')
            else
              (case extract_words page of
                 Inl e \<Rightarrow> Inl e
               | Inr words \<Rightarrow>
                   (let groups = extract_structured_text words 15 in
                    if groups \<noteq> [] then
                      Inr (fold group_step groups
                             (full_text @ ''\<newline>--- Page '' @ str_nat (i + 1)
                                @ '' ---\<newline>''))
                    else
                      Inr (full_text @ ''\<newline>--- Page '' @ str_nat (i + 1)
                             @ '' ---\<newline>[No text found]\<newline>'')))))"

text \<open>The loop over the pages: the first exception ends it.\<close>

fun page_loop :: "(nat \<times> page) list \<Rightarrow> string \<Rightarrow> exn + string" where
  "page_loop [] full_text = Inr full_text"
| "page_loop (ip # rest) full_text =
     (case page_step ip full_text of
        Inl e \<Rightarrow> Inl e
      | Inr full_text' \<Rightarrow> page_loop rest full_text')"

text \<open>
  The \<open>try\<close> block: \<open>pdf_open\<close> stands for \<open>pdfplumber.open\<close>, which either raises or
  yields the document. The block either raises or returns the stripped text. The line
  printed before the \<open>try\<close> block and the closing of the document are not part of the
  returned value and are left out.
\<close>

definition try_block :: "(string \<Rightarrow> exn + pdf) \<Rightarrow> string \<Rightarrow> exn + string" where
  "try_block pdf_open pdf_path =
     (case pdf_open pdf_path of
        Inl e \<Rightarrow> Inl e
      | Inr pdf \<Rightarrow>
          (case pdf_pages pdf of
             Inl e \<Rightarrow> Inl e
           | Inr pages \<Rightarrow>
               (case page_loop (enumerate 0 pages) [] of
                  Inl e \<Rightarrow> Inl e
                | Inr full_text \<Rightarrow> Inr (strip full_text))))"

text \<open>\<open>extract_text_from_pdf\<close>: the \<open>try\<close> block with its two handlers, the first for
  \<open>FileNotFoundError\<close>, the second for every other \<open>Exception\<close>.\<close>

definition extract_text_from_pdf :: "(string \<Rightarrow> exn + pdf) \<Rightarrow> string \<Rightarrow> string" where
  "extract_text_from_pdf pdf_open pdf_path =
     (case try_block pdf_open pdf_path of
        Inr full_text \<Rightarrow> full_text
      | Inl e \<Rightarrow>
          (case e of
             FileNotFoundError m \<Rightarrow>
               ''Error: The file was not found. Please provide the correct file path.''
           | _ \<Rightarrow> ''Error: An unexpected issue occurred: '' @ str_exn e))"

text \<open>
  What a path names in the file system: nothing, a directory, a file that the process may
  not read, or a readable file, which \<open>pdfplumber.open\<close> either rejects with an exception
  or opens as a document.
\<close>

datatype entry = Missing | Directory | Unreadable | Readable "exn + pdf"

text \<open>
  \<open>pdfplumber.open\<close> on a path, after Python's built-in \<open>open(path, "rb")\<close>, which it
  calls first: the three ways in which a path is not a readable file raise three different
  subclasses of \<open>OSError\<close> (messages as on POSIX systems).
\<close>

definition pdfplumber_open :: "(string \<Rightarrow> entry) \<Rightarrow> string \<Rightarrow> exn + pdf" where
  "pdfplumber_open fs pdf_path =
     (case fs pdf_path of
        Missing \<Rightarrow>
          Inl (FileNotFoundError
                 (''[Errno 2] No such file or directory: '' @ [CHR 0x27] @ pdf_path @ [CHR 0x27]))
      | Directory \<Rightarrow>
          Inl (IsADirectoryError
                 (''[Errno 21] Is a directory: '' @ [CHR 0x27] @ pdf_path @ [CHR 0x27]))
      | Unreadable \<Rightarrow>
          Inl (PermissionError
                 (''[Errno 13] Permission denied: '' @ [CHR 0x27] @ pdf_path @ [CHR 0x27]))
      | Readable r \<Rightarrow> r)"

definition is_readable :: "entry \<Rightarrow> bool" where
  "is_readable en = (case en of Readable r \<Rightarrow> True | _ \<Rightarrow> False)"

text \<open>
  A file system with three documents of two pages, a directory and an unreadable file.
  In \<open>report.pdf\<close> the first page has native text and the second has none and one word
  box; in \<open>quoted.pdf\<close> the native text of the first page is a line of the form of a page
  header; in \<open>broken.pdf\<close> the text extraction of the second page raises.
\<close>

definition sample_fs :: "string \<Rightarrow> entry" where
  "sample_fs pdf_path =
     (if pdf_path = ''report.pdf'' then
        Readable (Inr \<lparr>pdf_pages = Inr
          [\<lparr>extract_text = Inr (Some ''Hello''), extract_words = Inr []\<rparr>,
           \<lparr>extract_text = Inr (Some []), extract_words = Inr
              [\<lparr>word_x0 = 100, word_x1 = 110, word_top = 200, word_bottom = 210,
                 word_text = ''Hi''\<rparr>]\<rparr>]\<rparr>)
      else if pdf_path = ''quoted.pdf'' then
        Readable (Inr \<lparr>pdf_pages = Inr
          [\<lparr>extract_text = Inr (Some ''--- Page 5 ---''), extract_words = Inr []\<rparr>,
           \<lparr>extract_text = Inr (Some ''x''), extract_words = Inr []\<rparr>]\<rparr>)
      else if pdf_path = ''broken.pdf'' then
        Readable (Inr \<lparr>pdf_pages = Inr
          [\<lparr>extract_text = Inr (Some ''Hello''), extract_words = Inr []\<rparr>,
           \<lparr>extract_text = Inl (Exception ''unexpected EOF''), extract_words = Inr []\<rparr>]\<rparr>)
      else if pdf_path = ''reports'' then Directory
      else if pdf_path = ''locked.pdf'' then Unreadable
      else Missing)"

section \<open>Notions used in the statements\<close>

text \<open>The two components of \<open>get_directional_distances\<close>.\<close>

abbreviation h_dist :: "word \<Rightarrow> word \<Rightarrow> rat" where
  "h_dist word1 word2 \<equiv> fst (get_directional_distances word1 word2)"

abbreviation v_dist :: "word \<Rightarrow> word \<Rightarrow> rat" where
  "v_dist word1 word2 \<equiv> snd (get_directional_distances word1 word2)"



text \<open>Every finalized group is in non-decreasing order of the left edge.\<close>

definition groups_sorted :: "word list list \<Rightarrow> bool" where
  "groups_sorted groups = list_all (\<lambda>g. sorted (map word_x0 g)) groups"

text \<open>
  The invariant of the two grouping loops: the processed indices are indices of the word
  list, the words at these indices are, occurrence by occurrence, the words of the finalized
  groups and of the current group, and no finalized group is empty.
\<close>

definition covers :: "word list \<Rightarrow> nat set \<Rightarrow> word list \<Rightarrow> word list list \<Rightarrow> bool" where
  "covers ws processed current_group groups =
     (processed \<subseteq> {..<length ws}
      \<and> image_mset (nth ws) (mset_set processed) = mset (concat groups) + mset current_group
      \<and> [] \<notin> set groups)"

text \<open>The invariant of the outer loop before the seed with index \<open>n\<close>: no group is open
  and every earlier index has been processed.\<close>

definition seeded :: "word list \<Rightarrow> nat \<Rightarrow> nat set \<times> word list list \<Rightarrow> bool" where
  "seeded ws n st = (covers ws (fst st) [] (snd st) \<and> {..<n} \<subseteq> fst st)"

text \<open>The header that the page step emits for the page with 1-based index \<open>n\<close>, and
  the line of text in it.\<close>

definition header_line :: "nat \<Rightarrow> string" where
  "header_line n = ''--- Page '' @ str_nat n @ '' ---''"

definition page_header :: "nat \<Rightarrow> string" where
  "page_header n = ''\<newline>--- Page '' @ str_nat n @ '' ---\<newline>''"

text \<open>The line that the page step emits for one group: nothing when the joined text is
  empty.\<close>

definition group_line :: "word list \<Rightarrow> string" where
  "group_line grp =
     (let group_text = strip (join '' '' (map word_text grp))
      in if group_text \<noteq> [] then group_text @ ''\<newline>'' else [])"

text \<open>
  What the page step emits for a page after its header: the stripped native text, or the
  lines of the reconstructed groups, or the marker for a page without text; or the
  exception that an extraction call of the page raises.
\<close>

definition page_content :: "page \<Rightarrow> exn + string" where
  "page_content page =
     (case extract_text page of
        Inl e \<Rightarrow> Inl e
      | Inr text \<Rightarrow>
          if (case text of None \<Rightarrow> False | Some t \<Rightarrow> strip t \<noteq> []) then
            Inr (strip (the text) @ ''\<newline>'')
          else
            (case extract_words page of
               Inl e \<Rightarrow> Inl e
             | Inr words \<Rightarrow>
                 if extract_structured_text words 15 \<noteq> [] then
                   Inr (concat (map group_line (extract_structured_text words 15)))
                 else Inr ''[No text found]\<newline>''))"

text \<open>A text ends a line when its last two characters are a character that is not
  whitespace and a newline.\<close>

definition ends_line :: "string \<Rightarrow> bool" where
  "ends_line s = (\<exists>u d. s = u @ [d, CHR ''\<newline>''] \<and> \<not> isspace d)"

text \<open>A text is framed when it is a newline, a text that neither begins nor ends with
  whitespace, and a newline.\<close>

definition framed :: "string \<Rightarrow> bool" where
  "framed s = (\<exists>m. s = CHR ''\<newline>'' # m @ ''\<newline>'' \<and> m \<noteq> []
                  \<and> \<not> isspace (hd m) \<and> \<not> isspace (last m))"

text \<open>The lines of a text, as \<open>s.split('\n')\<close> gives them.\<close>

fun split_lines :: "string \<Rightarrow> string list" where
  "split_lines [] = [[]]"
| "split_lines (c # cs) =
     (if c = CHR ''\<newline>'' then [] # split_lines cs
      else (case split_lines cs of
              [] \<Rightarrow> [[c]]
            | l # ls \<Rightarrow> (c # l) # ls))"

text \<open>
  A line has the form of a page header when it is \<open>--- Page\<close>, a space, one or more
  decimal digits, a space and \<open>---\<close>. \<open>header_lines\<close> are the lines of that form in a
  text, in their order.
\<close>

definition is_digit :: "char \<Rightarrow> bool" where
  "is_digit c = (48 \<le> (of_char c :: nat) \<and> (of_char c :: nat) \<le> 57)"

definition is_header_line :: "string \<Rightarrow> bool" where
  "is_header_line l =
     (let d = take (length l - 13) (drop 9 l)
      in d \<noteq> [] \<and> list_all is_digit d \<and> l = ''--- Page '' @ d @ '' ---'')"

definition header_lines :: "string \<Rightarrow> string list" where
  "header_lines s = filter is_header_line (split_lines s)"

section \<open>Grouping of concrete pages\<close>

text \<open>
  C1. Two words on one row, centres \<open>(105, 205)\<close> and \<open>(115, 205)\<close>, horizontal distance
  10 below the threshold 15: the scan sees a vertical distance of 0, which is not above the
  horizontal distance, records the neighbour as a vertical candidate and starts a new line.
  The result is two groups of one word each, not one group of two.
\<close>

theorem same_row_pair_is_split:
  "extract_structured_text
     [\<lparr>word_x0 = 100, word_x1 = 110, word_top = 200, word_bottom = 210, word_text = ''left''\<rparr>,
      \<lparr>word_x0 = 110, word_x1 = 120, word_top = 200, word_bottom = 210, word_text = ''right''\<rparr>]
     15
   = [[\<lparr>word_x0 = 100, word_x1 = 110, word_top = 200, word_bottom = 210, word_text = ''left''\<rparr>],
      [\<lparr>word_x0 = 110, word_x1 = 120, word_top = 200, word_bottom = 210,
         word_text = ''right''\<rparr>]]"
  by code_simp

text \<open>
  C3. Three words with box centres \<open>(0,0)\<close>, \<open>(20,0)\<close> and \<open>(0,30)\<close> (boxes of width and
  height 10) and threshold 15: the word 30 units below the first one is a horizontal
  candidate at horizontal distance 0, so it joins the first word's group. The result is two
  groups, \<open>[A, C]\<close> and \<open>[B]\<close>, not three groups of one word. The same three boxes moved
  by 100 units in both directions are grouped in the same way.
\<close>

theorem three_words_two_groups:
  "map (map word_text) (extract_structured_text
     [\<lparr>word_x0 = -5, word_x1 = 5, word_top = -5, word_bottom = 5, word_text = ''A''\<rparr>,
      \<lparr>word_x0 = 15, word_x1 = 25, word_top = -5, word_bottom = 5, word_text = ''B''\<rparr>,
      \<lparr>word_x0 = -5, word_x1 = 5, word_top = 25, word_bottom = 35, word_text = ''C''\<rparr>]
     15)
   = [[''A'', ''C''], [''B'']]
   \<and> map (map word_text) (extract_structured_text
     [\<lparr>word_x0 = 95, word_x1 = 105, word_top = 95, word_bottom = 105, word_text = ''A''\<rparr>,
      \<lparr>word_x0 = 115, word_x1 = 125, word_top = 95, word_bottom = 105, word_text = ''B''\<rparr>,
      \<lparr>word_x0 = 95, word_x1 = 105, word_top = 125, word_bottom = 135, word_text = ''C''\<rparr>]
     15)
   = [[''A'', ''C''], [''B'']]"
  by code_simp

text \<open>
  C4. Two words in one column, centres \<open>(105, 205)\<close> and \<open>(105, 235)\<close>: the vertical
  distance 30 exceeds the threshold 15 and the horizontal distance 0, and both words are
  returned in one group.
\<close>

theorem same_column_pair_is_joined:
  "extract_structured_text
     [\<lparr>word_x0 = 100, word_x1 = 110, word_top = 200, word_bottom = 210, word_text = ''upper''\<rparr>,
      \<lparr>word_x0 = 100, word_x1 = 110, word_top = 230, word_bottom = 240, word_text = ''lower''\<rparr>]
     15
   = [[\<lparr>word_x0 = 100, word_x1 = 110, word_top = 200, word_bottom = 210, word_text = ''upper''\<rparr>,
       \<lparr>word_x0 = 100, word_x1 = 110, word_top = 230, word_bottom = 240,
         word_text = ''lower''\<rparr>]]"
  by code_simp

section \<open>The neighbour scan: classification and choice\<close>

text \<open>
  C5. A candidate whose horizontal distance to the current word equals its vertical
  distance never takes the horizontal branch of the scan: the horizontal minimum is left as
  it was, and the candidate is either recorded as the vertical candidate (when its distance
  is below the vertical minimum) or not recorded at all.
\<close>

theorem diagonal_candidate_is_vertical:
  assumes "fst (get_directional_distances current_word other_word)
             = snd (get_directional_distances current_word other_word)"
  shows "min_horizontal_dist (scan_step current_word (j, other_word) s) = min_horizontal_dist s
       \<and> (if less_dist (snd (get_directional_distances current_word other_word))
                 (min_vertical_dist s)
          then scan_step current_word (j, other_word) s
                 = s\<lparr>min_vertical_dist :=
                        Fin (snd (get_directional_distances current_word other_word)),
                      closest := Some (j, other_word), is_horizontal := False\<rparr>
          else scan_step current_word (j, other_word) s = s)"
proof (cases "get_directional_distances current_word other_word")
  case (Pair h_dist v_dist)
  with assms have "h_dist = v_dist" by simp
  with Pair show ?thesis by (simp add: scan_step_def)
qed

theorem diagonal_candidate_is_vertical_witness:
  "fst (get_directional_distances
          \<lparr>word_x0 = 100, word_x1 = 110, word_top = 200, word_bottom = 210, word_text = ''a''\<rparr>
          \<lparr>word_x0 = 120, word_x1 = 130, word_top = 220, word_bottom = 230, word_text = ''b''\<rparr>)
   = snd (get_directional_distances
          \<lparr>word_x0 = 100, word_x1 = 110, word_top = 200, word_bottom = 210, word_text = ''a''\<rparr>
          \<lparr>word_x0 = 120, word_x1 = 130, word_top = 220, word_bottom = 230, word_text = ''b''\<rparr>)
   \<and> scan_step
          \<lparr>word_x0 = 100, word_x1 = 110, word_top = 200, word_bottom = 210, word_text = ''a''\<rparr>
          (1, \<lparr>word_x0 = 120, word_x1 = 130, word_top = 220, word_bottom = 230, word_text = ''b''\<rparr>)
          scan_init
       = \<lparr>closest = Some (1, \<lparr>word_x0 = 120, word_x1 = 130, word_top = 220, word_bottom = 230,
                                word_text = ''b''\<rparr>),
          min_horizontal_dist = Inf, min_vertical_dist = Fin 20, is_horizontal = False\<rparr>"
proof -
  have h: "fst (get_directional_distances
          \<lparr>word_x0 = 100, word_x1 = 110, word_top = 200, word_bottom = 210, word_text = ''a''\<rparr>
          \<lparr>word_x0 = 120, word_x1 = 130, word_top = 220, word_bottom = 230, word_text = ''b''\<rparr>)
   = snd (get_directional_distances
          \<lparr>word_x0 = 100, word_x1 = 110, word_top = 200, word_bottom = 210, word_text = ''a''\<rparr>
          \<lparr>word_x0 = 120, word_x1 = 130, word_top = 220, word_bottom = 230, word_text = ''b''\<rparr>)"
    by (simp add: get_directional_distances_def)
  have v: "snd (get_directional_distances
          \<lparr>word_x0 = 100, word_x1 = 110, word_top = 200, word_bottom = 210, word_text = ''a''\<rparr>
          \<lparr>word_x0 = 120, word_x1 = 130, word_top = 220, word_bottom = 230, word_text = ''b''\<rparr>)
        = 20"
    by (simp add: get_directional_distances_def)
  from diagonal_candidate_is_vertical [OF h, of 1 scan_init] h show ?thesis
    by (simp add: v scan_init_def)
qed








section \<open>Order inside a group\<close>

lemma fold_invariant:
  assumes "P s" and "\<And>x s. x \<in> set xs \<Longrightarrow> P s \<Longrightarrow> P (f x s)"
  shows "P (fold f xs s)"
  using assms by (induction xs arbitrary: s) simp_all

lemma groups_sorted_snoc:
  "groups_sorted groups \<Longrightarrow> groups_sorted (groups @ [sort_key word_x0 g])"
  by (simp add: groups_sorted_def)

lemma extend_group_sorted:
  assumes "groups_sorted groups"
  shows "groups_sorted (snd (snd (extend_group words threshold processed current_word
                                     current_group groups)))"
  using assms
proof (induction words threshold processed current_word current_group groups
       rule: extend_group.induct)
  case (1 words threshold processed current_word current_group groups)
  show ?case
  proof (cases "closest (find_closest words processed current_word)")
    case None
    then show ?thesis using "1.prems" by (simp add: extend_group.simps)
  next
    case (Some p)
    obtain closest_idx closest_word where p: "p = (closest_idx, closest_word)"
      by (cases p)
    show ?thesis
      using "1.IH"(1) [OF refl Some p [symmetric]] "1.IH"(2) [OF refl Some p [symmetric]]
        "1.prems" Some p
      by (subst extend_group.simps) (simp add: groups_sorted_snoc Let_def)
  qed
qed

lemma seed_step_sorted:
  assumes "groups_sorted (snd st)"
  shows "groups_sorted (snd (seed_step words threshold iw st))"
proof -
  obtain i current_word where iw: "iw = (i, current_word)" by (cases iw)
  obtain processed groups where st: "st = (processed, groups)" by (cases st)
  obtain processed' current_group groups' where
    e: "extend_group words threshold (insert i processed) current_word [current_word] groups
          = (processed', current_group, groups')"
    by (cases "extend_group words threshold (insert i processed) current_word
                 [current_word] groups")
  have "groups_sorted groups'"
    using extend_group_sorted [of groups words threshold "insert i processed" current_word
            "[current_word]"] assms st e
    by simp
  then show ?thesis
    using assms by (simp add: seed_step_def iw st e groups_sorted_snoc)
qed

text \<open>
  C6. For every list of words and every threshold, each returned group lists its words in
  non-decreasing order of the left edge \<open>x0\<close>.
\<close>

theorem groups_ordered_by_left_edge:
  "list_all (\<lambda>g. sorted (map word_x0 g)) (extract_structured_text page_words threshold)"
proof -
  have "groups_sorted (snd (fold (seed_step ws threshold) xs ({}, [])))" for ws xs
    by (rule fold_invariant [where P = "\<lambda>st. groups_sorted (snd st)"])
       (simp_all add: groups_sorted_def [of "[]"] seed_step_sorted)
  then show ?thesis
    by (simp add: extract_structured_text_def groups_sorted_def Let_def)
qed

section \<open>The groups partition the words\<close>

lemma covers_insert:
  assumes "covers ws processed current_group groups" "k < length ws" "k \<notin> processed"
  shows "covers ws (insert k processed) (current_group @ [ws ! k]) groups"
proof -
  have "finite processed"
    using assms(1) by (auto simp: covers_def intro: finite_subset)
  then show ?thesis
    using assms by (simp add: covers_def)
qed

lemma covers_new_line:
  assumes "covers ws processed current_group groups" "k < length ws" "k \<notin> processed"
    "current_group \<noteq> []"
  shows "covers ws (insert k processed) [ws ! k] (groups @ [sort_key word_x0 current_group])"
proof -
  have "finite processed"
    using assms(1) by (auto simp: covers_def intro: finite_subset)
  moreover have "sort_key word_x0 current_group \<noteq> []"
    using assms(4) by (metis length_sort length_0_conv)
  ultimately show ?thesis
    using assms by (simp add: covers_def)
qed

lemma covers_finalize:
  assumes "covers ws processed current_group groups" "current_group \<noteq> []"
  shows "covers ws processed [] (groups @ [sort_key word_x0 current_group])"
proof -
  have "sort_key word_x0 current_group \<noteq> []"
    using assms(2) by (metis length_sort length_0_conv)
  then show ?thesis
    using assms by (simp add: covers_def)
qed

lemma extend_group_covers:
  assumes "covers words processed current_group groups" "current_group \<noteq> []"
  shows "case extend_group words threshold processed current_word current_group groups of
           (processed', current_group', groups') \<Rightarrow>
             covers words processed' current_group' groups' \<and> current_group' \<noteq> []
             \<and> processed \<subseteq> processed'"
  using assms
proof (induction words threshold processed current_word current_group groups
       rule: extend_group.induct)
  case (1 words threshold processed current_word current_group groups)
  show ?case
  proof (cases "closest (find_closest words processed current_word)")
    case None
    then show ?thesis using "1.prems" by (simp add: extend_group.simps)
  next
    case (Some p)
    obtain closest_idx closest_word where p: "p = (closest_idx, closest_word)"
      by (cases p)
    from find_closest_idx [OF Some [unfolded p]]
    have k: "closest_idx < length words" "closest_word = words ! closest_idx"
      "closest_idx \<notin> processed"
      by simp_all
    have a: "covers words (insert closest_idx processed) (current_group @ [closest_word]) groups"
      using covers_insert [OF "1.prems"(1) k(1) k(3)] k(2) by simp
    have b: "covers words (insert closest_idx processed) [closest_word]
               (groups @ [sort_key word_x0 current_group])"
      using covers_new_line [OF "1.prems"(1) k(1) k(3) "1.prems"(2)] k(2) by simp
    show ?thesis
    proof (cases "greater_dist (min_dist
                    (min_horizontal_dist (find_closest words processed current_word))
                    (min_vertical_dist (find_closest words processed current_word))) threshold")
      case True
      then show ?thesis
        using "1.prems" Some p by (subst extend_group.simps) (simp add: Let_def)
    next
      case far: False
      show ?thesis
      proof (cases "is_horizontal (find_closest words processed current_word)")
        case True
        have "case extend_group words threshold (insert closest_idx processed) closest_word
                     (current_group @ [closest_word]) groups of
                (processed', current_group', groups') \<Rightarrow>
                  covers words processed' current_group' groups' \<and> current_group' \<noteq> []
                  \<and> insert closest_idx processed \<subseteq> processed'"
          using "1.IH"(1) [OF refl Some p [symmetric] far True a] by simp
        then show ?thesis
          using Some p far True
          by (subst extend_group.simps) (auto simp add: Let_def split: prod.splits)
      next
        case False
        have "case extend_group words threshold (insert closest_idx processed) closest_word
                     [closest_word] (groups @ [sort_key word_x0 current_group]) of
                (processed', current_group', groups') \<Rightarrow>
                  covers words processed' current_group' groups' \<and> current_group' \<noteq> []
                  \<and> insert closest_idx processed \<subseteq> processed'"
          using "1.IH"(2) [OF refl Some p [symmetric] far False b] by simp
        then show ?thesis
          using Some p far False
          by (subst extend_group.simps) (auto simp add: Let_def split: prod.splits)
      qed
    qed
  qed
qed

lemma seed_step_seeded:
  assumes "seeded ws n st" "n < length ws"
  shows "seeded ws (Suc n) (seed_step ws threshold (n, ws ! n) st)"
proof -
  obtain processed groups where st: "st = (processed, groups)" by (cases st)
  show ?thesis
  proof (cases "n \<in> processed")
    case True
    then have "seed_step ws threshold (n, ws ! n) st = st"
      by (simp add: seed_step_def st)
    then show ?thesis
      using assms True by (auto simp: seeded_def st less_Suc_eq)
  next
    case False
    obtain processed' current_group groups' where
      e: "extend_group ws threshold (insert n processed) (ws ! n) [ws ! n] groups
            = (processed', current_group, groups')"
      by (cases "extend_group ws threshold (insert n processed) (ws ! n) [ws ! n] groups")
    have c: "covers ws processed [] groups"
      using assms(1) by (simp add: seeded_def st)
    have "covers ws (insert n processed) ([] @ [ws ! n]) groups"
      using c assms(2) False by (rule covers_insert)
    then have "covers ws (insert n processed) [ws ! n] groups" by simp
    from extend_group_covers [OF this, of threshold "ws ! n"]
    have r: "covers ws processed' current_group groups'" "current_group \<noteq> []"
      "insert n processed \<subseteq> processed'"
      by (simp_all add: e)
    have s: "seed_step ws threshold (n, ws ! n) st
               = (processed', groups' @ [sort_key word_x0 current_group])"
      using False r(2) by (simp add: seed_step_def st e)
    have "{..<Suc n} \<subseteq> processed'"
      using assms(1) r(3) by (auto simp: seeded_def st less_Suc_eq)
    then show ?thesis
      using covers_finalize [OF r(1) r(2)] by (simp add: seeded_def s)
  qed
qed

lemma seeded_fold:
  assumes "n \<le> length ws"
  shows "seeded ws n (fold (seed_step ws threshold) (take n (enumerate 0 ws)) ({}, []))"
  using assms
proof (induction n)
  case 0
  then show ?case by (simp add: seeded_def covers_def)
next
  case (Suc n)
  then have "take (Suc n) (enumerate 0 ws) = take n (enumerate 0 ws) @ [(n, ws ! n)]"
    by (simp add: take_Suc_conv_app_nth nth_enumerate_eq)
  then show ?case
    using Suc seed_step_seeded [of ws n _ threshold] by simp
qed

lemma all_indices: "image_mset (nth ws) (mset_set {..<length ws}) = mset ws"
proof -
  have "image_mset (nth ws) (mset_set {..<length ws}) = mset (map (nth ws) [0..<length ws])"
    by (simp add: atLeast0LessThan)
  then show ?thesis by (simp only: map_nth)
qed

text \<open>
  C10. For every list of words and every threshold, the returned groups hold exactly the
  input words, each occurrence once (the multiset of the words of all groups is the
  multiset of the input), and no returned group is empty.
\<close>

theorem groups_partition_words:
  "mset (concat (extract_structured_text page_words threshold)) = mset page_words
   \<and> [] \<notin> set (extract_structured_text page_words threshold)"
proof (cases "page_words = []")
  case True
  then show ?thesis by (simp add: extract_structured_text_def)
next
  case False
  define ws where "ws = sort_key (\<lambda>w. (word_top w, word_x0 w)) page_words"
  define st where "st = fold (seed_step ws threshold) (enumerate 0 ws) ({}, [])"
  have "seeded ws (length ws) st"
    using seeded_fold [of "length ws" ws threshold] by (simp add: st_def)
  then have c: "covers ws (fst st) [] (snd st)" and "{..<length ws} \<subseteq> fst st"
    by (simp_all add: seeded_def)
  then have "fst st = {..<length ws}"
    by (auto simp: covers_def)
  with c have "mset (concat (snd st)) = mset ws" "[] \<notin> set (snd st)"
    using all_indices [of ws] by (simp_all add: covers_def)
  moreover have "extract_structured_text page_words threshold = snd st"
    using False by (simp add: extract_structured_text_def st_def ws_def Let_def)
  moreover have "mset ws = mset page_words"
    by (simp add: ws_def)
  ultimately show ?thesis by simp
qed

section \<open>Pages without native text\<close>

lemma strip_blank:
  assumes "list_all isspace t"
  shows "strip t = []"
proof -
  have "dropWhile isspace t = []"
    using assms by (simp add: list_all_iff)
  then show ?thesis by (simp add: strip_def del: dropWhile_eq_Nil_conv)
qed

text \<open>
  C7. When \<open>extract_text\<close> returns \<open>None\<close>, the empty string or a string of whitespace
  only, the page step does not emit the native text: it calls \<open>extract_words\<close> and emits
  what the fallback emits, the header followed by the lines of the groups of
  \<open>extract_structured_text\<close>, or by the \<open>[No text found]\<close> marker when there are no
  groups (and an exception of \<open>extract_words\<close> leaves the step).
\<close>

theorem blank_page_uses_fallback:
  assumes "extract_text page = Inr None
           \<or> (\<exists>t. extract_text page = Inr (Some t) \<and> list_all isspace t)"
  shows "page_step (i, page) full_text =
           (case extract_words page of
              Inl e \<Rightarrow> Inl e
            | Inr words \<Rightarrow>
                Inr (if extract_structured_text words 15 \<noteq> [] then
                       fold group_step (extract_structured_text words 15)
                         (full_text @ ''\<newline>--- Page '' @ str_nat (i + 1) @ '' ---\<newline>'')
                     else
                       full_text @ ''\<newline>--- Page '' @ str_nat (i + 1)
                         @ '' ---\<newline>[No text found]\<newline>''))"
  using assms
proof
  assume "extract_text page = Inr None"
  then show ?thesis by (simp add: page_step_def Let_def split: sum.splits)
next
  assume "\<exists>t. extract_text page = Inr (Some t) \<and> list_all isspace t"
  then obtain t where "extract_text page = Inr (Some t)" "strip t = []"
    using strip_blank by blast
  then show ?thesis by (simp add: page_step_def Let_def split: sum.splits)
qed

theorem blank_page_uses_fallback_witness:
  "(extract_text \<lparr>extract_text = Inr (Some ''   ''), extract_words = Inr
       [\<lparr>word_x0 = 100, word_x1 = 110, word_top = 200, word_bottom = 210, word_text = ''Hi''\<rparr>]\<rparr>
      = Inr None
    \<or> (\<exists>t. extract_text \<lparr>extract_text = Inr (Some ''   ''), extract_words = Inr
       [\<lparr>word_x0 = 100, word_x1 = 110, word_top = 200, word_bottom = 210, word_text = ''Hi''\<rparr>]\<rparr>
          = Inr (Some t) \<and> list_all isspace t))
   \<and> page_step (0, \<lparr>extract_text = Inr (Some ''   ''), extract_words = Inr
       [\<lparr>word_x0 = 100, word_x1 = 110, word_top = 200, word_bottom = 210, word_text = ''Hi''\<rparr>]\<rparr>)
        []
     = Inr ''\<newline>--- Page 1 ---\<newline>Hi\<newline>''"
  (is "?blank \<and> page_step (0, ?page) [] = ?section")
proof -
  have "list_all isspace ''   ''"
    by (simp add: isspace_def)
  then have h: ?blank by simp
  have "(case extract_words ?page of
           Inl e \<Rightarrow> Inl e
         | Inr words \<Rightarrow>
             Inr (if extract_structured_text words 15 \<noteq> [] then
                    fold group_step (extract_structured_text words 15)
                      ([] @ ''\<newline>--- Page '' @ str_nat (0 + 1) @ '' ---\<newline>'')
                  else [] @ ''\<newline>--- Page '' @ str_nat (0 + 1)
                         @ '' ---\<newline>[No text found]\<newline>'')) = ?section"
    by code_simp
  with blank_page_uses_fallback [OF h, of 0 "[]"]
  have "page_step (0, ?page) [] = ?section"
    by (rule trans)
  with h show ?thesis by (rule conjI)
qed

section \<open>Failures of the whole document\<close>

text \<open>
  C8, as the code has it. Whatever exception the opening of the path raises (or any later
  step of the \<open>try\<close> block), the function returns a string and the exception does not
  leave it: the fixed message for \<open>FileNotFoundError\<close>, the generic message with
  \<open>str(e)\<close> for every other one. So a
  path that names nothing gives the fixed message, and a path that names a directory or a
  file that may not be read gives the generic message with the description of the failure.
\<close>

theorem open_failure_is_reported:
  "(pdf_open pdf_path = Inl e \<longrightarrow>
      extract_text_from_pdf pdf_open pdf_path
        = (case e of
             FileNotFoundError m \<Rightarrow>
               ''Error: The file was not found. Please provide the correct file path.''
           | _ \<Rightarrow> ''Error: An unexpected issue occurred: '' @ str_exn e))
   \<and> (try_block pdf_open pdf_path = Inl e \<longrightarrow>
      extract_text_from_pdf pdf_open pdf_path
        = (case e of
             FileNotFoundError m \<Rightarrow>
               ''Error: The file was not found. Please provide the correct file path.''
           | _ \<Rightarrow> ''Error: An unexpected issue occurred: '' @ str_exn e))
   \<and> (fs pdf_path = Missing \<longrightarrow>
        extract_text_from_pdf (pdfplumber_open fs) pdf_path
          = ''Error: The file was not found. Please provide the correct file path.'')
   \<and> (fs pdf_path = Directory \<longrightarrow>
        extract_text_from_pdf (pdfplumber_open fs) pdf_path
          = ''Error: An unexpected issue occurred: [Errno 21] Is a directory: ''
              @ [CHR 0x27] @ pdf_path @ [CHR 0x27])
   \<and> (fs pdf_path = Unreadable \<longrightarrow>
        extract_text_from_pdf (pdfplumber_open fs) pdf_path
          = ''Error: An unexpected issue occurred: [Errno 13] Permission denied: ''
              @ [CHR 0x27] @ pdf_path @ [CHR 0x27])"
  by (simp add: extract_text_from_pdf_def try_block_def pdfplumber_open_def)

theorem open_failure_is_reported_witness:
  "sample_fs ''missing.pdf'' = Missing
   \<and> extract_text_from_pdf (pdfplumber_open sample_fs) ''missing.pdf''
       = ''Error: The file was not found. Please provide the correct file path.''"
proof -
  have h: "sample_fs ''missing.pdf'' = Missing"
    by (simp add: sample_fs_def)
  from open_failure_is_reported [of _ "''missing.pdf''" _ sample_fs] h
  show ?thesis by blast
qed

text \<open>
  C8, as the claim states it, fails. The path \<open>reports\<close> names a directory, so it does not
  resolve to a readable file; opening it raises \<open>IsADirectoryError\<close>, which the first
  handler does not catch, and the result is the generic message, not the fixed one.
\<close>

theorem directory_path_gets_generic_message:
  "\<not> is_readable (sample_fs ''reports'')
   \<and> extract_text_from_pdf (pdfplumber_open sample_fs) ''reports''
       = ''Error: An unexpected issue occurred: [Errno 21] Is a directory: ''
           @ [CHR 0x27] @ ''reports'' @ [CHR 0x27]
   \<and> extract_text_from_pdf (pdfplumber_open sample_fs) ''reports''
       \<noteq> ''Error: The file was not found. Please provide the correct file path.''"
  by code_simp

section \<open>Page headers\<close>

lemma fold_group_step:
  "fold group_step groups full_text = full_text @ concat (map group_line groups)"
  by (induction groups arbitrary: full_text) (simp_all add: group_step_def group_line_def Let_def)

lemma page_step_section:
  "page_step (i, page) full_text =
     (case page_content page of
        Inl e \<Rightarrow> Inl e
      | Inr c \<Rightarrow> Inr (full_text @ page_header (i + 1) @ c))"
proof (cases "extract_text page")
  case (Inl e)
  then show ?thesis by (simp add: page_step_def page_content_def)
next
  case (Inr native)
  have s: "strip [] = []" by (simp add: strip_def)
  have c: "(case native of None \<Rightarrow> False | Some t \<Rightarrow> t \<noteq> [] \<and> length (strip t) > 0)
         = (case native of None \<Rightarrow> False | Some t \<Rightarrow> strip t \<noteq> [])"
    using s by (auto split: option.splits)
  show ?thesis
    using Inr
    by (simp add: page_step_def page_content_def c page_header_def Let_def fold_group_step
             split: sum.splits)
qed

lemma page_loop_sections:
  assumes "map (\<lambda>ip. page_content (snd ip)) xs = map Inr cs"
  shows "page_loop xs full_text
           = Inr (full_text @ concat (map (\<lambda>(i, c). page_header (i + 1) @ c)
                                         (zip (map fst xs) cs)))"
  using assms
proof (induction xs arbitrary: cs full_text)
  case Nil
  then show ?case by simp
next
  case (Cons x xs)
  obtain i page where x: "x = (i, page)" by (cases x)
  from Cons.prems obtain c cs' where cs: "cs = c # cs'" "page_content page = Inr c"
    "map (\<lambda>ip. page_content (snd ip)) xs = map Inr cs'"
    by (cases cs) (auto simp: x)
  show ?case
    by (simp add: x cs(1) cs(2) page_step_section Cons.IH [OF cs(3)])
qed

lemma strip_last:
  assumes "strip t \<noteq> []"
  shows "\<not> isspace (last (strip t))"
proof -
  let ?r = "dropWhile isspace (rev (dropWhile isspace t))"
  have "?r \<noteq> []" using assms by (simp add: strip_def)
  then have "\<not> isspace (hd ?r)" by (rule hd_dropWhile)
  moreover have "last (strip t) = hd ?r"
    using \<open>?r \<noteq> []\<close> by (simp add: strip_def last_rev)
  ultimately show ?thesis by simp
qed

lemma ends_line_strip:
  assumes "strip t \<noteq> []"
  shows "ends_line (strip t @ ''\<newline>'')"
proof -
  have "strip t @ ''\<newline>'' = butlast (strip t) @ [last (strip t), CHR ''\<newline>'']"
    using assms by simp
  then show ?thesis
    using strip_last [OF assms] unfolding ends_line_def by blast
qed

lemma ends_line_append: "ends_line b \<Longrightarrow> ends_line (a @ b)"
  unfolding ends_line_def by (metis append_assoc)

lemma group_line_end: "group_line g = [] \<or> ends_line (group_line g)"
  by (simp add: group_line_def Let_def ends_line_strip)

lemma group_lines_end:
  "concat (map group_line gs) = [] \<or> ends_line (concat (map group_line gs))"
proof (induction gs)
  case Nil
  then show ?case by simp
next
  case (Cons g gs)
  show ?case
  proof (cases "concat (map group_line gs) = []")
    case True
    have "concat (map group_line (g # gs)) = group_line g @ concat (map group_line gs)"
      by simp
    also have "\<dots> = group_line g"
      by (simp only: True append_Nil2)
    finally show ?thesis using group_line_end [of g] by (simp only:)
  next
    case False
    with Cons.IH have "ends_line (concat (map group_line gs))" by blast
    then show ?thesis by (simp add: ends_line_append)
  qed
qed

lemma no_text_end: "ends_line ''[No text found]\<newline>''"
proof -
  have "''[No text found]\<newline>'' = ''[No text found'' @ [CHR '']'', CHR ''\<newline>'']"
    by simp
  moreover have "\<not> isspace CHR '']''" by (simp add: isspace_def)
  ultimately show ?thesis unfolding ends_line_def by blast
qed

lemma page_content_end:
  assumes "page_content page = Inr c"
  shows "c = [] \<or> ends_line c"
proof -
  from assms obtain native where t: "extract_text page = Inr native"
    by (cases "extract_text page") (simp_all add: page_content_def)
  show ?thesis
  proof (cases "case native of None \<Rightarrow> False | Some t \<Rightarrow> strip t \<noteq> []")
    case True
    then obtain u where "native = Some u" "strip u \<noteq> []"
      by (auto split: option.splits)
    then show ?thesis
      using assms t by (auto simp: page_content_def ends_line_strip)
  next
    case False
    with assms t obtain words where w: "extract_words page = Inr words"
      by (cases "extract_words page") (simp_all add: page_content_def)
    show ?thesis
    proof (cases "extract_structured_text words 15 = []")
      case True
      then show ?thesis
        using assms t w False no_text_end by (auto simp: page_content_def)
    next
      case nonempty: False
      then have "c = concat (map group_line (extract_structured_text words 15))"
        using assms t w False by (simp add: page_content_def)
      then show ?thesis using group_lines_end by simp
    qed
  qed
qed

lemma section_framed:
  assumes "c = [] \<or> ends_line c"
  shows "framed (page_header n @ c)"
proof -
  have dash: "\<not> isspace CHR ''-''" by (simp add: isspace_def)
  from assms show ?thesis
  proof
    assume "c = []"
    then have "page_header n @ c
        = CHR ''\<newline>'' # (''--- Page '' @ str_nat n @ '' ---'') @ ''\<newline>''"
      by (simp add: page_header_def)
    moreover have "hd (''--- Page '' @ str_nat n @ '' ---'') = CHR ''-''" by simp
    moreover have "last (''--- Page '' @ str_nat n @ '' ---'') = CHR ''-''" by simp
    ultimately show ?thesis
      unfolding framed_def using dash
      by (metis append_is_Nil_conv list.distinct(1))
  next
    assume "ends_line c"
    then obtain u d where c: "c = u @ [d, CHR ''\<newline>'']" "\<not> isspace d"
      unfolding ends_line_def by blast
    then have "page_header n @ c
        = CHR ''\<newline>'' # (''--- Page '' @ str_nat n @ '' ---\<newline>'' @ u @ [d]) @ ''\<newline>''"
      by (simp add: page_header_def)
    moreover have "hd (''--- Page '' @ str_nat n @ '' ---\<newline>'' @ u @ [d]) = CHR ''-''" by simp
    moreover have "last (''--- Page '' @ str_nat n @ '' ---\<newline>'' @ u @ [d]) = d" by simp
    ultimately show ?thesis
      unfolding framed_def using dash c(2)
      by (metis append_is_Nil_conv list.distinct(1))
  qed
qed

lemma framed_append:
  assumes "framed a" "framed b"
  shows "framed (a @ b)"
proof -
  from assms obtain m m' where
    a: "a = CHR ''\<newline>'' # m @ ''\<newline>''" "m \<noteq> []" "\<not> isspace (hd m)"
    and b: "b = CHR ''\<newline>'' # m' @ ''\<newline>''" "m' \<noteq> []" "\<not> isspace (last m')"
    unfolding framed_def by blast
  have "a @ b = CHR ''\<newline>'' # (m @ ''\<newline>\<newline>'' @ m') @ ''\<newline>''"
    by (simp add: a(1) b(1))
  moreover have "hd (m @ ''\<newline>\<newline>'' @ m') = hd m" using a(2) by simp
  moreover have "last (m @ ''\<newline>\<newline>'' @ m') = last m'" using b(2) by simp
  moreover have "m @ ''\<newline>\<newline>'' @ m' \<noteq> []" using a(2) by simp
  ultimately show ?thesis
    unfolding framed_def using a(3) b(3) by metis
qed

lemma framed_concat:
  assumes "xs \<noteq> []" "\<And>x. x \<in> set xs \<Longrightarrow> framed (f x)"
  shows "framed (concat (map f xs))"
  using assms
proof (induction xs)
  case Nil
  then show ?case by simp
next
  case (Cons x xs)
  show ?case
  proof (cases "xs = []")
    case True
    then show ?thesis using Cons.prems by simp
  next
    case False
    then have "framed (concat (map f xs))" using Cons by simp
    moreover have "framed (f x)" using Cons.prems by simp
    ultimately show ?thesis by (simp add: framed_append)
  qed
qed

lemma strip_framed:
  assumes "framed s"
  shows "''\<newline>'' @ strip s @ ''\<newline>'' = s"
proof -
  from assms obtain m where
    s: "s = CHR ''\<newline>'' # m @ ''\<newline>''" and m: "m \<noteq> []" "\<not> isspace (hd m)"
      "\<not> isspace (last m)"
    unfolding framed_def by blast
  have nl: "isspace CHR ''\<newline>''" by (simp add: isspace_def)
  obtain c cs where mc: "m = c # cs" using m(1) by (cases m) auto
  then have "dropWhile isspace s = m @ ''\<newline>''"
    using m(2) nl by (simp add: s)
  moreover have "dropWhile isspace (rev (m @ ''\<newline>'')) = rev m"
  proof -
    have "hd (rev m) = last m" using m(1) by (simp add: hd_rev)
    then have "dropWhile isspace (rev m) = rev m"
      using m(3) by (simp add: dropWhile_eq_self_iff)
    then show ?thesis using nl by simp
  qed
  ultimately have "strip s = m" by (simp add: strip_def)
  then show ?thesis by (simp add: s)
qed

lemma split_lines_nonempty: "split_lines s \<noteq> []"
  by (induction s) (simp_all split: list.splits)

lemma split_lines_append:
  "split_lines (a @ CHR ''\<newline>'' # b) = split_lines a @ split_lines b"
proof (induction a)
  case Nil
  then show ?case by simp
next
  case (Cons c a)
  obtain l ls where "split_lines a = l # ls"
    using split_lines_nonempty [of a] by (cases "split_lines a") auto
  then show ?case using Cons by simp
qed

lemma split_lines_single:
  assumes "CHR ''\<newline>'' \<notin> set l"
  shows "split_lines l = [l]"
  using assms by (induction l) auto

lemma is_digit_char: "k < (10::nat) \<Longrightarrow> is_digit (char_of (48 + k))"
  by (simp add: is_digit_def)

lemma str_nat_digits: "str_nat n \<noteq> [] \<and> list_all is_digit (str_nat n)"
proof (induction n rule: str_nat.induct)
  case (1 n)
  show ?case
  proof (cases "n < 10")
    case True
    then show ?thesis by (subst (1 2) str_nat.simps) (simp add: is_digit_char)
  next
    case False
    have "n mod 10 < 10" by simp
    then have "is_digit (char_of (48 + n mod 10))" by (rule is_digit_char)
    then show ?thesis
      using 1 False by (subst (1 2) str_nat.simps) simp
  qed
qed

lemma header_line_is_header: "is_header_line (header_line n)"
  using str_nat_digits [of n] by (simp add: is_header_line_def header_line_def Let_def)

lemma header_line_no_newline: "CHR ''\<newline>'' \<notin> set (header_line n)"
proof -
  have "\<not> is_digit CHR ''\<newline>''" by (simp add: is_digit_def)
  then have "CHR ''\<newline>'' \<notin> set (str_nat n)"
    using str_nat_digits [of n] by (auto simp: list_all_iff)
  then show ?thesis by (simp add: header_line_def)
qed

lemma page_header_line: "page_header n = CHR ''\<newline>'' # header_line n @ ''\<newline>''"
  by (simp add: page_header_def header_line_def)

lemma header_lines_append:
  "header_lines (a @ CHR ''\<newline>'' # b) = header_lines a @ header_lines b"
  by (simp add: header_lines_def split_lines_append)

lemma header_lines_sections:
  "header_lines (c0 @ concat (map (\<lambda>(i, c). page_header (i + 1) @ c) ics))
     = header_lines c0 @ concat (map (\<lambda>(i, c). header_line (i + 1) # header_lines c) ics)"
proof (induction ics arbitrary: c0)
  case Nil
  then show ?case by simp
next
  case (Cons x ics)
  obtain i c where x: "x = (i, c)" by (cases x)
  let ?rest = "concat (map (\<lambda>(i, c). page_header (i + 1) @ c) ics)"
  have "c0 @ concat (map (\<lambda>(i, c). page_header (i + 1) @ c) (x # ics))
          = c0 @ CHR ''\<newline>'' # (header_line (i + 1) @ CHR ''\<newline>'' # (c @ ?rest))"
    by (simp add: x page_header_line)
  then have "header_lines (c0 @ concat (map (\<lambda>(i, c). page_header (i + 1) @ c) (x # ics)))
          = header_lines c0 @ header_lines (header_line (i + 1)) @ header_lines (c @ ?rest)"
    by (simp only: header_lines_append)
  moreover have "header_lines (header_line (i + 1)) = [header_line (i + 1)]"
    by (simp add: header_lines_def split_lines_single header_line_no_newline
          header_line_is_header)
  moreover have "header_lines (c @ ?rest)
          = header_lines c @ concat (map (\<lambda>(i, c). header_line (i + 1) # header_lines c) ics)"
    by (rule Cons.IH)
  ultimately show ?case
    by (simp add: x)
qed

lemma header_lines_empty: "header_lines [] = []"
  by (simp add: header_lines_def is_header_line_def)

lemma header_lines_framed:
  assumes "''\<newline>'' @ r @ ''\<newline>'' = s"
  shows "header_lines r = header_lines s"
proof -
  have "s = [] @ CHR ''\<newline>'' # (r @ CHR ''\<newline>'' # [])"
    using assms by simp
  then have "header_lines s = header_lines [] @ header_lines r @ header_lines []"
    by (simp only: header_lines_append)
  then show ?thesis by (simp add: header_lines_empty)
qed

lemma concat_headers_only:
  assumes "list_all (\<lambda>c. header_lines c = []) (map snd ics)"
  shows "concat (map (\<lambda>(i, c). header_line (i + 1) # header_lines c) ics)
           = map (\<lambda>i. header_line (i + 1)) (map fst ics)"
  using assms by (induction ics) auto

text \<open>
  C9, as the code has it. For a document that opens, whose \<open>pages\<close> call returns the
  pages and whose pages are all extracted without an exception, with the contents
  \<open>contents\<close>: the returned string is the stripped concatenation, in page order, of one
  section per page, the header \<open>--- Page i+1 ---\<close> followed by the content of the page
  with 0-based index \<open>i\<close>, whichever of the three ways produced the content; when there is
  at least one page, stripping removes exactly the newline before the first header and the
  newline at the very end. The lines of header form in the returned string are, page by
  page, the header of the page followed by the lines of header form of its own content. So
  when no content has a line of header form, the header lines of the result are exactly
  the headers of the pages \<open>1\<close> to \<open>length pages\<close>, in ascending order.
\<close>

theorem headers_follow_pages:
  assumes "pdf_open pdf_path = Inr pdf" and "pdf_pages pdf = Inr pages"
    and "map page_content pages = map Inr contents"
  shows "extract_text_from_pdf pdf_open pdf_path
           = strip (concat (map (\<lambda>(i, c). page_header (i + 1) @ c) (enumerate 0 contents)))
       \<and> (pages \<noteq> [] \<longrightarrow>
            ''\<newline>'' @ extract_text_from_pdf pdf_open pdf_path @ ''\<newline>''
              = concat (map (\<lambda>(i, c). page_header (i + 1) @ c) (enumerate 0 contents)))
       \<and> header_lines (extract_text_from_pdf pdf_open pdf_path)
           = concat (map (\<lambda>(i, c). header_line (i + 1) # header_lines c)
                       (enumerate 0 contents))
       \<and> (list_all (\<lambda>c. header_lines c = []) contents \<longrightarrow>
            header_lines (extract_text_from_pdf pdf_open pdf_path)
              = map (\<lambda>i. header_line (i + 1)) [0..<length pages])"
proof -
  let ?secs = "enumerate 0 contents"
  let ?full = "concat (map (\<lambda>(i, c). page_header (i + 1) @ c) ?secs)"
  have len: "length contents = length pages"
    using assms(3) by (metis length_map)
  have "map (\<lambda>ip. page_content (snd ip)) xs = map page_content (map snd xs)" for xs
    by (simp add: comp_def)
  then have "map (\<lambda>ip. page_content (snd ip)) (enumerate 0 pages)
          = map page_content (map snd (enumerate 0 pages))" .
  also have "\<dots> = map page_content pages"
    by (simp only: map_snd_enumerate)
  also have "\<dots> = map Inr contents"
    by (rule assms(3))
  finally have "map (\<lambda>ip. page_content (snd ip)) (enumerate 0 pages) = map Inr contents" .
  from page_loop_sections [OF this, of "[]"]
  have "page_loop (enumerate 0 pages) [] = Inr ?full"
    using len by (simp add: enumerate_eq_zip)
  then have r: "extract_text_from_pdf pdf_open pdf_path = strip ?full"
    using assms(1,2) by (simp add: extract_text_from_pdf_def try_block_def)
  have f: "''\<newline>'' @ strip ?full @ ''\<newline>'' = ?full" if "pages \<noteq> []"
  proof (rule strip_framed, rule framed_concat)
    show "?secs \<noteq> []" using that len by (cases contents) simp_all
  next
    fix x assume "x \<in> set ?secs"
    then have "snd x \<in> snd ` set ?secs" by (rule imageI)
    then have "snd x \<in> set (map snd ?secs)" by (simp only: set_map)
    then have "snd x \<in> set contents" by (simp only: map_snd_enumerate)
    then obtain i c where x: "x = (i, c)" "c \<in> set contents"
      by (cases x) simp
    then have "Inr c \<in> set (map page_content pages)"
      using assms(3) by simp
    then obtain page where "page_content page = Inr c" by auto
    from section_framed [OF page_content_end [OF this]]
    show "framed (case x of (i, c) \<Rightarrow> page_header (i + 1) @ c)"
      by (simp add: x(1))
  qed
  have h: "header_lines (strip ?full)
             = concat (map (\<lambda>(i, c). header_line (i + 1) # header_lines c) ?secs)"
  proof (cases "pages = []")
    case True
    then have "contents = []" using len by simp
    then show ?thesis by (simp add: strip_def header_lines_empty)
  next
    case False
    from header_lines_framed [OF f [OF False]]
    have "header_lines (strip ?full) = header_lines ([] @ ?full)" by simp
    also have "\<dots> = header_lines []
        @ concat (map (\<lambda>(i, c). header_line (i + 1) # header_lines c) ?secs)"
      by (rule header_lines_sections)
    finally show ?thesis by (simp add: header_lines_empty)
  qed
  have n: "concat (map (\<lambda>(i, c). header_line (i + 1) # header_lines c) ?secs)
             = map (\<lambda>i. header_line (i + 1)) [0..<length pages]"
    if "list_all (\<lambda>c. header_lines c = []) contents"
  proof -
    have "list_all (\<lambda>c. header_lines c = []) (map snd ?secs)"
      using that by (simp only: map_snd_enumerate)
    then have "concat (map (\<lambda>(i, c). header_line (i + 1) # header_lines c) ?secs)
            = map (\<lambda>i. header_line (i + 1)) (map fst ?secs)"
      by (rule concat_headers_only)
    also have "map fst ?secs = [0..<length pages]"
      by (simp add: len)
    finally show ?thesis .
  qed
  show ?thesis using r f h n by simp
qed

theorem headers_follow_pages_witness:
  "pdfplumber_open sample_fs ''report.pdf''
     = Inr \<lparr>pdf_pages = Inr
         [\<lparr>extract_text = Inr (Some ''Hello''), extract_words = Inr []\<rparr>,
          \<lparr>extract_text = Inr (Some []), extract_words = Inr
             [\<lparr>word_x0 = 100, word_x1 = 110, word_top = 200, word_bottom = 210,
                word_text = ''Hi''\<rparr>]\<rparr>]\<rparr>
   \<and> map page_content
         [\<lparr>extract_text = Inr (Some ''Hello''), extract_words = Inr []\<rparr>,
          \<lparr>extract_text = Inr (Some []), extract_words = Inr
             [\<lparr>word_x0 = 100, word_x1 = 110, word_top = 200, word_bottom = 210,
                word_text = ''Hi''\<rparr>]\<rparr>]
       = map Inr [''Hello\<newline>'', ''Hi\<newline>'']
   \<and> list_all (\<lambda>c. header_lines c = []) [''Hello\<newline>'', ''Hi\<newline>'']
   \<and> header_lines (extract_text_from_pdf (pdfplumber_open sample_fs) ''report.pdf'')
       = [''--- Page 1 ---'', ''--- Page 2 ---'']"
  (is "?open = Inr \<lparr>pdf_pages = Inr ?pages\<rparr> \<and> ?m = map Inr ?contents \<and> ?plain
       \<and> ?headers = ?expected")
proof -
  have h1: "?open = Inr \<lparr>pdf_pages = Inr ?pages\<rparr>"
    by (simp add: pdfplumber_open_def sample_fs_def)
  have h2: "pdf_pages \<lparr>pdf_pages = Inr ?pages\<rparr> = Inr ?pages"
    by simp
  have h3: "?m = map Inr ?contents"
    by code_simp
  have h4: ?plain
    by code_simp
  have e: "map (\<lambda>i. header_line (i + 1)) [0..<length ?pages] = ?expected"
    by code_simp
  from headers_follow_pages [of "pdfplumber_open sample_fs" "''report.pdf''", OF h1 h2 h3] h4
  have "?headers = map (\<lambda>i. header_line (i + 1)) [0..<length ?pages]"
    by blast
  then have "?headers = ?expected"
    using e by (rule trans)
  with h1 h3 h4 show ?thesis by blast
qed

text \<open>
  C9, as the claim states it, fails in two ways. The document \<open>quoted.pdf\<close> has two pages
  and the native text of its first page is the line \<open>--- Page 5 ---\<close>: the returned string
  has three lines of header form, with the indices 1, 5, 2. The document \<open>broken.pdf\<close>
  opens and has two pages, and the text extraction of its second page raises: the returned
  string is the generic error message and has no header at all.
\<close>

theorem header_lines_exceed_pages:
  "pdfplumber_open sample_fs ''quoted.pdf''
     = Inr \<lparr>pdf_pages = Inr
         [\<lparr>extract_text = Inr (Some ''--- Page 5 ---''), extract_words = Inr []\<rparr>,
          \<lparr>extract_text = Inr (Some ''x''), extract_words = Inr []\<rparr>]\<rparr>
   \<and> extract_text_from_pdf (pdfplumber_open sample_fs) ''quoted.pdf''
       = ''--- Page 1 ---\<newline>--- Page 5 ---\<newline>\<newline>--- Page 2 ---\<newline>x''
   \<and> header_lines (extract_text_from_pdf (pdfplumber_open sample_fs) ''quoted.pdf'')
       = [''--- Page 1 ---'', ''--- Page 5 ---'', ''--- Page 2 ---'']
   \<and> pdfplumber_open sample_fs ''broken.pdf''
     = Inr \<lparr>pdf_pages = Inr
         [\<lparr>extract_text = Inr (Some ''Hello''), extract_words = Inr []\<rparr>,
          \<lparr>extract_text = Inl (Exception ''unexpected EOF''), extract_words = Inr []\<rparr>]\<rparr>
   \<and> extract_text_from_pdf (pdfplumber_open sample_fs) ''broken.pdf''
       = ''Error: An unexpected issue occurred: unexpected EOF''
   \<and> header_lines (extract_text_from_pdf (pdfplumber_open sample_fs) ''broken.pdf'') = []"
  by code_simp

end
